theory Spec2Isabelle
  imports Complex_Main
begin

section \<open>JavaScript values used by the crawler\<close>

text \<open>
  The crawler of \<^verbatim>\<open>src/crawler.js\<close> is a JavaScript class. Its numbers are doubles; the
  model keeps the one special value the code can produce, \<open>NaN\<close> (what \<^verbatim>\<open>parseInt\<close>
  returns on text without digits), and takes every other number as an exact rational:
  the delays are halved and doubled, so integers are not enough, and rationals are
  exact wherever doubles are. Overflow to \<open>Infinity\<close> (after about a thousand doublings)
  is not modelled.
\<close>

datatype jsnum = NaN | Num rat

fun js_mul :: "jsnum \<Rightarrow> jsnum \<Rightarrow> jsnum" where
  "js_mul (Num a) (Num b) = Num (a * b)"
| "js_mul _ _ = NaN"

fun js_div :: "jsnum \<Rightarrow> rat \<Rightarrow> jsnum" where
  "js_div (Num a) b = Num (a / b)"
| "js_div NaN b = NaN"

text \<open>\<^verbatim>\<open>Math.max(a, b)\<close>: \<open>NaN\<close> as soon as one argument is \<open>NaN\<close>.\<close>

fun Math_max :: "jsnum \<Rightarrow> jsnum \<Rightarrow> jsnum" where
  "Math_max (Num a) (Num b) = Num (max a b)"
| "Math_max _ _ = NaN"

text \<open>Exceptions, by their class; a plain \<^verbatim>\<open>Error\<close> carries its message.\<close>

datatype js_exn = Error string | TypeError | ReferenceError

subsection \<open>\<^verbatim>\<open>parseInt(text, 10)\<close>\<close>

text \<open>
  Leading white space is skipped, one sign is read, then the longest run of decimal
  digits; no digit at all gives \<open>NaN\<close>. Strings are byte strings here, so the white space
  is the ASCII one.
\<close>

definition is_space :: "char \<Rightarrow> bool" where
  "is_space c = (c = CHR '' '' \<or> c = CHR 0x09 \<or> c = CHR 0x0A \<or> c = CHR 0x0B
                 \<or> c = CHR 0x0C \<or> c = CHR 0x0D)"

definition is_digit :: "char \<Rightarrow> bool" where
  "is_digit c = (48 \<le> (of_char c :: nat) \<and> (of_char c :: nat) \<le> 57)"

definition digits_value :: "string \<Rightarrow> int" where
  "digits_value ds = foldl (\<lambda>acc c. 10 * acc + (int (of_char c) - 48)) 0 ds"

definition parseInt :: "string \<Rightarrow> jsnum" where
  "parseInt text =
     (let s = dropWhile is_space text;
          negative = (case s of [] \<Rightarrow> False | c # _ \<Rightarrow> c = CHR ''-'');
          body = (case s of [] \<Rightarrow> []
                  | c # r \<Rightarrow> if c = CHR ''-'' \<or> c = CHR ''+'' then r else s);
          ds = takeWhile is_digit body
      in if ds = [] then NaN
         else Num (of_int (if negative then - digits_value ds else digits_value ds)))"

subsection \<open>Identifiers\<close>

text \<open>
  The names \<^verbatim>\<open>crawler.js\<close> can refer to: what it declares or requires at module level,
  and the globals of Node it uses. Reading any other free identifier throws a
  \<^verbatim>\<open>ReferenceError\<close>.
\<close>

definition module_bindings :: "string list" where
  "module_bindings =
     [''axios'', ''cheerio'', ''fs'', ''URL'', ''WebCrawler'', ''require'', ''module'',
      ''process'', ''console'', ''Math'', ''parseInt'', ''Promise'', ''setTimeout'',
      ''JSON'', ''Set'', ''Error'']"

definition identifier_ref :: "string \<Rightarrow> js_exn option" where
  "identifier_ref name = (if name \<in> set module_bindings then None else Some ReferenceError)"

section \<open>The URL class\<close>

text \<open>
  \<^verbatim>\<open>URL\<close> comes from Node's \<^verbatim>\<open>url\<close> module, not from the repository, so the crawler is
  modelled over any implementation of the two uses the code makes of it:
  \<^item> \<open>hostname U s\<close> is \<^verbatim>\<open>new URL(s).hostname\<close>,
  \<^item> \<open>href U h b\<close> is \<^verbatim>\<open>new URL(h, b).href\<close>,
  with \<open>None\<close> where the constructor throws.
\<close>

record url_class =
  hostname :: "string \<Rightarrow> string option"
  href :: "string \<Rightarrow> string \<Rightarrow> string option"

text \<open>
  A small executable instance, for running the model on concrete pages. It follows
  Node on the inputs used below: lower-case \<^verbatim>\<open>http\<close> and \<^verbatim>\<open>https\<close> URLs made of a scheme, a
  host and a path, and references that are empty, absolute URLs of that kind, absolute
  paths or plain relative paths.
\<close>

definition split_scheme :: "string \<Rightarrow> (string \<times> string) option" where
  "split_scheme s =
     (if take 7 s = ''http://'' then Some (''http://'', drop 7 s)
      else if take 8 s = ''https://'' then Some (''https://'', drop 8 s)
      else None)"

definition ends_host :: "char \<Rightarrow> bool" where
  "ends_host c = (c = CHR ''/'' \<or> c = CHR ''?'' \<or> c = CHR ''#'')"

text \<open>An absolute URL as (scheme, host, rest); an empty path is serialised as \<open>/\<close>.\<close>

definition parse_absolute :: "string \<Rightarrow> (string \<times> string \<times> string) option" where
  "parse_absolute s =
     (case split_scheme s of
        None \<Rightarrow> None
      | Some (scheme, rest) \<Rightarrow>
          (let host = takeWhile (\<lambda>c. \<not> ends_host c) rest;
               tail = dropWhile (\<lambda>c. \<not> ends_host c) rest
           in if host = [] then None
              else Some (scheme, host,
                     (case tail of [] \<Rightarrow> ''/''
                      | c # _ \<Rightarrow> if c = CHR ''/'' then tail else CHR ''/'' # tail))))"

definition directory :: "string \<Rightarrow> string" where
  "directory path = rev (dropWhile (\<lambda>c. c \<noteq> CHR ''/'') (rev path))"

definition node_hostname :: "string \<Rightarrow> string option" where
  "node_hostname s = (case parse_absolute s of None \<Rightarrow> None | Some (_, host, _) \<Rightarrow> Some host)"

definition node_href :: "string \<Rightarrow> string \<Rightarrow> string option" where
  "node_href h base =
     (case parse_absolute h of
        Some (scheme, host, path) \<Rightarrow> Some (scheme @ host @ path)
      | None \<Rightarrow>
          (case parse_absolute base of
             None \<Rightarrow> None
           | Some (scheme, host, path) \<Rightarrow>
               (case h of
                  [] \<Rightarrow> Some (scheme @ host @ path)
                | c # _ \<Rightarrow>
                    if c = CHR ''/'' then Some (scheme @ host @ h)
                    else Some (scheme @ host @ directory path @ h))))"

definition node_url :: url_class where
  "node_url = \<lparr> hostname = node_hostname, href = node_href \<rparr>"

section \<open>The crawler object\<close>

type_synonym headers = "string \<rightharpoonup> string"

record crawler =
  startUrl :: string
  domainName :: string
  visitedUrls :: "string set"
  urlQueue :: "string list"
  maxConcurrency :: int
  activeRequests :: int
  maxRetries :: int
  retryCounts :: "string \<rightharpoonup> int"
  crawledData :: "string \<rightharpoonup> string list"
  failedUrls :: "string \<rightharpoonup> int"
  dynamicDelay :: jsnum

subsection \<open>\<^verbatim>\<open>constructor\<close>\<close>

text \<open>
  An argument left out is \<open>None\<close>; \<^verbatim>\<open>!startUrl\<close> holds for a missing and for an empty
  start URL. The two \<^verbatim>\<open>throw\<close>s come before the first piece of crawling state is made,
  so a failed construction is an exception and nothing else.
\<close>

definition constructor ::
  "url_class \<Rightarrow> string option \<Rightarrow> int option \<Rightarrow> int option \<Rightarrow> js_exn + crawler" where
  "constructor U startUrl_arg maxConcurrency_arg maxRetries_arg =
     (case startUrl_arg of
        None \<Rightarrow> Inl (Error ''Start URL is required.'')
      | Some url \<Rightarrow>
          if url = [] then Inl (Error ''Start URL is required.'')
          else (case hostname U url of
                  None \<Rightarrow> Inl (Error ''Invalid URL provided.'')
                | Some host \<Rightarrow>
                    Inr \<lparr> startUrl = url,
                          domainName = host,
                          visitedUrls = {},
                          urlQueue = [url],
                          maxConcurrency = (case maxConcurrency_arg of None \<Rightarrow> 5 | Some n \<Rightarrow> n),
                          activeRequests = 0,
                          maxRetries = (case maxRetries_arg of None \<Rightarrow> 3 | Some n \<Rightarrow> n),
                          retryCounts = Map.empty,
                          crawledData = Map.empty,
                          failedUrls = Map.empty,
                          dynamicDelay = Num 100 \<rparr>))"

subsection \<open>\<^verbatim>\<open>adjustRateLimit\<close>\<close>

text \<open>
  The method is \<^verbatim>\<open>async\<close> and awaits nothing: its body runs at once, and an exception
  thrown in it rejects the promise it returns instead of reaching the caller. The
  result is the object as the body left it, and the rejection if there is one. With
  \<^verbatim>\<open>headers\<close> undefined the first property access throws. With a \<^verbatim>\<open>retry-after\<close> header
  the body calls \<^verbatim>\<open>log\<close>, a name the file never binds, before it assigns the delay. No
  caller awaits or catches the promise; what Node does with a rejection that nobody
  handles is outside the object and is not modelled.
\<close>

definition adjustRateLimit :: "headers option \<Rightarrow> crawler \<Rightarrow> crawler \<times> js_exn option" where
  "adjustRateLimit headers_arg c =
     (case headers_arg of
        None \<Rightarrow> (c, Some TypeError)
      | Some h \<Rightarrow>
          (let c1 =
             (case h ''x-ratelimit-remaining'' of
                None \<Rightarrow> c
              | Some v \<Rightarrow>
                  if parseInt v = Num 0
                  then c\<lparr>dynamicDelay := Math_max (js_mul (dynamicDelay c) (Num 2)) (Num 1000)\<rparr>
                  else c\<lparr>dynamicDelay := Math_max (Num 100) (js_div (dynamicDelay c) 2)\<rparr>)
           in case h ''retry-after'' of
                None \<Rightarrow> (c1, None)
              | Some v \<Rightarrow>
                  (let retryAfter = js_mul (parseInt v) (Num 1000)
                   in case identifier_ref ''log'' of
                        Some e \<Rightarrow> (c1, Some e)
                      | None \<Rightarrow>
                          (c1\<lparr>dynamicDelay := Math_max (dynamicDelay c1) retryAfter\<rparr>, None))))"

subsection \<open>\<^verbatim>\<open>extractLinks\<close>\<close>

text \<open>
  Parsing the page is cheerio's work. A page is taken as what the selector
  \<^verbatim>\<open>a[href]\<close> yields from it: the value of the \<^verbatim>\<open>href\<close> attribute of each anchor that has
  one, in document order. An attribute that is present and empty is the empty string.
  The callback of \<^verbatim>\<open>each\<close> resolves one value against the base URL and pushes the result;
  a value on which \<^verbatim>\<open>new URL\<close> throws is logged and skipped.
\<close>

type_synonym html = "string list"

fun each_anchor :: "url_class \<Rightarrow> string \<Rightarrow> string list \<Rightarrow> string list \<Rightarrow> string list" where
  "each_anchor U baseUrl [] links = links"
| "each_anchor U baseUrl (h # rest) links =
     (case href U h baseUrl of
        Some absoluteUrl \<Rightarrow> each_anchor U baseUrl rest (links @ [absoluteUrl])
      | None \<Rightarrow> each_anchor U baseUrl rest links)"

definition extractLinks :: "url_class \<Rightarrow> html \<Rightarrow> string \<Rightarrow> string list" where
  "extractLinks U page baseUrl = each_anchor U baseUrl page []"

subsection \<open>\<^verbatim>\<open>[...new Set(links)]\<close>\<close>

text \<open>
  A JavaScript \<^verbatim>\<open>Set\<close> keeps its elements in insertion order and ignores the insertion of
  an element it holds; spreading it lists them in that order.
\<close>

definition Set_add :: "'a list \<Rightarrow> 'a \<Rightarrow> 'a list" where
  "Set_add elems x = (if x \<in> set elems then elems else elems @ [x])"

definition new_Set :: "'a list \<Rightarrow> 'a list" where
  "new_Set xs = foldl Set_add [] xs"

subsection \<open>\<^verbatim>\<open>handleRetry\<close>\<close>

text \<open>
  The method runs up to \<^verbatim>\<open>await this.delay(...)\<close> when it is called and the rest when the
  timer fires. \<open>handleRetry_begin\<close> is the first part; it returns the object and whether
  the call is now waiting for its timer. \<open>handleRetry_resume\<close> is the part after the
  timer. The length of the delay, \<^verbatim>\<open>Math.pow(2, count * 100)\<close> milliseconds, changes no
  field of the object.
\<close>

definition handleRetry_begin :: "string \<Rightarrow> crawler \<Rightarrow> crawler \<times> bool" where
  "handleRetry_begin url c =
     (let counts = (case retryCounts c url of None \<Rightarrow> (retryCounts c)(url \<mapsto> 0)
                    | Some _ \<Rightarrow> retryCounts c);
          n = (case counts url of None \<Rightarrow> 0 | Some k \<Rightarrow> k)
      in if n < maxRetries c
         then (c\<lparr>retryCounts := counts(url \<mapsto> n + 1)\<rparr>, True)
         else (c\<lparr>retryCounts := counts, failedUrls := (failedUrls c)(url \<mapsto> n)\<rparr>, False))"

definition handleRetry_resume :: "string \<Rightarrow> headers option \<Rightarrow> crawler \<Rightarrow> crawler" where
  "handleRetry_resume url headers_arg c =
     (let c1 = (case headers_arg of None \<Rightarrow> c
                | Some h \<Rightarrow> fst (adjustRateLimit (Some h) c))
      in c1\<lparr>urlQueue := urlQueue c1 @ [url]\<rparr>)"

text \<open>A call that is awaited with nothing else running, as the tests make it.\<close>

definition handleRetry :: "string \<Rightarrow> headers option \<Rightarrow> crawler \<Rightarrow> crawler" where
  "handleRetry url headers_arg c =
     (case handleRetry_begin url c of
        (c1, True) \<Rightarrow> handleRetry_resume url headers_arg c1
      | (c1, False) \<Rightarrow> c1)"

subsection \<open>\<^verbatim>\<open>fetchAndProcess\<close>\<close>

text \<open>
  The loop over the links of a fetched page. The test of a link reads the visited set
  first and parses the link only when it is not visited; a link on which \<^verbatim>\<open>new URL\<close>
  throws ends the loop with that exception.
\<close>

fun push_links :: "url_class \<Rightarrow> string list \<Rightarrow> crawler \<Rightarrow> crawler \<times> js_exn option" where
  "push_links U [] c = (c, None)"
| "push_links U (link # rest) c =
     (if link \<in> visitedUrls c then push_links U rest c
      else (case hostname U link of
              None \<Rightarrow> (c, Some TypeError)
            | Some host \<Rightarrow>
                if host = domainName c
                then push_links U rest (c\<lparr>urlQueue := urlQueue c @ [link]\<rparr>)
                else push_links U rest c))"

text \<open>
  What \<^verbatim>\<open>axios.get\<close> answers: a page with its headers, or an error that may carry the
  headers of a response. The headers are \<open>None\<close> where the code finds \<^verbatim>\<open>undefined\<close>.
\<close>

datatype response = Resolved html "headers option" | Rejected "headers option"

text \<open>
  The part of \<^verbatim>\<open>fetchAndProcess\<close> after \<^verbatim>\<open>await axios.get(url)\<close>. The \<^verbatim>\<open>catch\<close> block calls
  \<^verbatim>\<open>handleRetry\<close> without awaiting it, so only its first part runs here; the result says
  with which headers a retry is now waiting, if one is.
\<close>

definition fetchAndProcess_resume ::
  "url_class \<Rightarrow> string \<Rightarrow> response \<Rightarrow> crawler \<Rightarrow> crawler \<times> headers option option" where
  "fetchAndProcess_resume U url answer c =
     (case answer of
        Resolved page headers_arg \<Rightarrow>
          (let links = extractLinks U page url;
               uniqueLinks = new_Set links;
               c1 = c\<lparr>crawledData := (crawledData c)(url \<mapsto> uniqueLinks)\<rparr>;
               c2 = fst (adjustRateLimit headers_arg c1)
           in case push_links U links c2 of
                (c3, None) \<Rightarrow> (c3, None)
              | (c3, Some e) \<Rightarrow>
                  (case handleRetry_begin url c3 of
                     (c4, waiting) \<Rightarrow> (c4, if waiting then Some None else None)))
      | Rejected headers_arg \<Rightarrow>
          (case handleRetry_begin url c of
             (c1, waiting) \<Rightarrow> (c1, if waiting then Some headers_arg else None)))"

section \<open>A crawl\<close>

text \<open>
  \<^verbatim>\<open>crawl\<close> runs on one thread with the fetches and retries it started: each of them
  runs between two of its own \<^verbatim>\<open>await\<close>s without interruption. A session is the crawler
  object together with what is suspended: the URLs whose \<^verbatim>\<open>axios.get\<close> has not answered,
  the retries waiting for their timer, and whether the loop of \<^verbatim>\<open>crawl\<close> has ended.
  \<open>dispatched\<close> lists the calls of \<^verbatim>\<open>fetchAndProcess\<close> made so far, as a spy on the method
  would.
\<close>

record session =
  obj :: crawler
  fetching :: "string list"
  retrying :: "(string \<times> headers option) list"
  dispatched :: "string list"
  finished :: bool

definition start :: "crawler \<Rightarrow> session" where
  "start c = \<lparr> obj = c, fetching = [], retrying = [], dispatched = [], finished = False \<rparr>"

text \<open>
  One pass of the \<^verbatim>\<open>while\<close> loop of \<^verbatim>\<open>crawl\<close>: the loop ends, or it takes the head of the
  queue (and calls \<^verbatim>\<open>fetchAndProcess\<close> when the URL is not visited), or it sleeps.
\<close>

definition crawl_pass :: "session \<Rightarrow> session option" where
  "crawl_pass s =
     (let c = obj s in
      if finished s then None
      else if \<not> (urlQueue c \<noteq> [] \<or> activeRequests c > 0) then Some (s\<lparr>finished := True\<rparr>)
      else if activeRequests c < maxConcurrency c \<and> urlQueue c \<noteq> []
      then (case urlQueue c of
              [] \<Rightarrow> None
            | url # rest \<Rightarrow>
                if url \<in> visitedUrls c then Some (s\<lparr>obj := c\<lparr>urlQueue := rest\<rparr>\<rparr>)
                else Some (s\<lparr>obj := c\<lparr>urlQueue := rest,
                                         visitedUrls := insert url (visitedUrls c),
                                         activeRequests := activeRequests c + 1\<rparr>,
                             fetching := fetching s @ [url],
                             dispatched := dispatched s @ [url]\<rparr>))
      else Some s)"

text \<open>
  The events of a crawl: a pass of the loop, the answer to a pending fetch (after which
  the \<^verbatim>\<open>finally\<close> handler decrements \<^verbatim>\<open>activeRequests\<close>), and the timer of the \<open>k\<close>-th
  waiting retry. An event that cannot happen in a state gives \<open>None\<close>. A run takes
  the events in any order in which they can happen, so it covers every schedule of
  the event loop; what holds of all runs holds of the crawler.
\<close>

datatype event = Pass | Answer string response | Timer nat

definition fire :: "url_class \<Rightarrow> event \<Rightarrow> session \<Rightarrow> session option" where
  "fire U ev s =
     (case ev of
        Pass \<Rightarrow> crawl_pass s
      | Answer url answer \<Rightarrow>
          if url \<in> set (fetching s)
          then (case fetchAndProcess_resume U url answer (obj s) of
                  (c1, retry) \<Rightarrow>
                    Some (s\<lparr>obj := c1\<lparr>activeRequests := activeRequests c1 - 1\<rparr>,
                            fetching := remove1 url (fetching s),
                            retrying := (case retry of None \<Rightarrow> retrying s
                                         | Some h \<Rightarrow> retrying s @ [(url, h)])\<rparr>))
          else None
      | Timer k \<Rightarrow>
          if k < length (retrying s)
          then (case retrying s ! k of
                  (url, h) \<Rightarrow>
                    Some (s\<lparr>obj := handleRetry_resume url h (obj s),
                            retrying := take k (retrying s) @ drop (Suc k) (retrying s)\<rparr>))
          else None)"

fun run :: "url_class \<Rightarrow> event list \<Rightarrow> session \<Rightarrow> session option" where
  "run U [] s = Some s"
| "run U (ev # evs) s = (case fire U ev s of None \<Rightarrow> None | Some s' \<Rightarrow> run U evs s')"

text \<open>A session: the crawler as constructed, then \<^verbatim>\<open>crawl()\<close> and the events that follow.\<close>

definition crawl ::
  "url_class \<Rightarrow> string option \<Rightarrow> int option \<Rightarrow> int option \<Rightarrow> event list \<Rightarrow> session option" where
  "crawl U startUrl_arg maxConcurrency_arg maxRetries_arg evs =
     (case constructor U startUrl_arg maxConcurrency_arg maxRetries_arg of
        Inl e \<Rightarrow> None
      | Inr c \<Rightarrow> run U evs (start c))"

section \<open>Notions the properties are stated with\<close>

text \<open>The test of line 72 on a link: not visited, and on the crawler's host.\<close>

definition wanted :: "url_class \<Rightarrow> crawler \<Rightarrow> string \<Rightarrow> bool" where
  "wanted U c link = (link \<notin> visitedUrls c \<and> hostname U link = Some (domainName c))"

definition at_least_100 :: "jsnum \<Rightarrow> bool" where
  "at_least_100 d = (case d of NaN \<Rightarrow> False | Num r \<Rightarrow> 100 \<le> r)"

text \<open>
  The unique elements of a sequence in the order of their first occurrence, said
  without a set: the elements at the positions before which they do not occur.
\<close>

definition first_occurrences :: "'a list \<Rightarrow> 'a list" where
  "first_occurrences xs =
     map (\<lambda>i. xs ! i) (filter (\<lambda>i. xs ! i \<notin> set (take i xs)) [0..<length xs])"

text \<open>Invariants of a session.\<close>

definition visited_inv :: "session \<Rightarrow> bool" where
  "visited_inv s =
     (set (fetching s) \<subseteq> visitedUrls (obj s) \<and>
      fst ` set (retrying s) \<subseteq> visitedUrls (obj s) \<and>
      set (dispatched s) = visitedUrls (obj s) \<and>
      distinct (dispatched s))"

definition host_inv :: "url_class \<Rightarrow> session \<Rightarrow> bool" where
  "host_inv U s =
     (\<forall>u \<in> set (urlQueue (obj s)) \<union> set (fetching s) \<union> fst ` set (retrying s).
        hostname U u = Some (domainName (obj s)))"

definition records_inv :: "session \<Rightarrow> bool" where
  "records_inv s =
     (dom (crawledData (obj s)) \<union> dom (failedUrls (obj s)) \<subseteq> visitedUrls (obj s))"

subsection \<open>A concrete session\<close>

text \<open>The crawler that \<^verbatim>\<open>new WebCrawler('http://example.com')\<close> makes.\<close>

definition example_com :: crawler where
  "example_com =
     \<lparr> startUrl = ''http://example.com'', domainName = ''example.com'', visitedUrls = {},
       urlQueue = [''http://example.com''], maxConcurrency = 5, activeRequests = 0,
       maxRetries = 3, retryCounts = Map.empty, crawledData = Map.empty,
       failedUrls = Map.empty, dynamicDelay = Num 100 \<rparr>"

text \<open>
  The start page has two anchors to \<^verbatim>\<open>/a\<close>, one to another site and one with an empty
  \<^verbatim>\<open>href\<close>, and is served with an exhausted quota; the fetch of \<^verbatim>\<open>/a\<close> fails, and its retry
  is requeued.
\<close>

definition start_page :: html where
  "start_page = [''/a'', ''/a'', ''http://other.org/x'', []]"

definition events_1 :: "event list" where
  "events_1 =
     [Pass,
      Answer ''http://example.com''
        (Resolved start_page (Some [''x-ratelimit-remaining'' \<mapsto> ''0''])),
      Pass,
      Answer ''http://example.com/a'' (Rejected None)]"

definition events_2 :: "event list" where
  "events_2 = [Pass, Pass]"

text \<open>The state of that crawler once the loop has taken the start URL from the queue.\<close>

definition seed_fetching :: crawler where
  "seed_fetching =
     example_com\<lparr> urlQueue := [], visitedUrls := {''http://example.com''}, activeRequests := 1 \<rparr>"

text \<open>
  The session after \<open>events_1\<close>, after the timer of the waiting retry, and after the two
  passes of \<open>events_2\<close>.
\<close>

definition state_1 :: session where
  "state_1 =
     \<lparr> obj =
         \<lparr> startUrl = ''http://example.com'', domainName = ''example.com'',
           visitedUrls = {''http://example.com'', ''http://example.com/a''},
           urlQueue = [''http://example.com/a'', ''http://example.com/''],
           maxConcurrency = 5, activeRequests = 0, maxRetries = 3,
           retryCounts = [''http://example.com/a'' \<mapsto> 1],
           crawledData = [''http://example.com'' \<mapsto>
             [''http://example.com/a'', ''http://other.org/x'', ''http://example.com/'']],
           failedUrls = Map.empty, dynamicDelay = Num 1000 \<rparr>,
       fetching = [], retrying = [(''http://example.com/a'', None)],
       dispatched = [''http://example.com'', ''http://example.com/a''],
       finished = False \<rparr>"

definition state_2 :: session where
  "state_2 =
     state_1\<lparr> obj := (obj state_1)\<lparr>urlQueue :=
                  [''http://example.com/a'', ''http://example.com/'', ''http://example.com/a'']\<rparr>,
              retrying := [] \<rparr>"

definition state_3 :: session where
  "state_3 =
     state_2\<lparr> obj := (obj state_2)\<lparr>urlQueue := [''http://example.com/a''],
                  visitedUrls := {''http://example.com'', ''http://example.com/a'', ''http://example.com/''},
                  activeRequests := 1\<rparr>,
              fetching := [''http://example.com/''],
              dispatched := [''http://example.com'', ''http://example.com/a'', ''http://example.com/''] \<rparr>"

text \<open>A URL that keeps failing, and the crawler after three awaited calls of \<^verbatim>\<open>handleRetry\<close>.\<close>

definition retry_url :: string where
  "retry_url = ''http://example.com/retry''"

definition after_three_failures :: crawler where
  "after_three_failures =
     handleRetry retry_url None (handleRetry retry_url None (handleRetry retry_url None example_com))"

text \<open>
  The crawler of \<^verbatim>\<open>new WebCrawler('http://example.com/')\<close> once the loop has taken the start
  URL from the queue.
\<close>

definition home_fetching :: crawler where
  "home_fetching =
     \<lparr> startUrl = ''http://example.com/'', domainName = ''example.com'',
       visitedUrls = {''http://example.com/''}, urlQueue = [],
       maxConcurrency = 5, activeRequests = 1, maxRetries = 3, retryCounts = Map.empty,
       crawledData = Map.empty, failedUrls = Map.empty, dynamicDelay = Num 100 \<rparr>"

section \<open>Auxiliary facts\<close>

subsection \<open>What each operation leaves unchanged\<close>

lemma adjustRateLimit_frame:
  "fst (adjustRateLimit h c) = c\<lparr>dynamicDelay := dynamicDelay (fst (adjustRateLimit h c))\<rparr>"
  by (simp add: adjustRateLimit_def Let_def split: option.splits)

lemma adjust_fields [simp]:
  "urlQueue (fst (adjustRateLimit h c)) = urlQueue c"
  "visitedUrls (fst (adjustRateLimit h c)) = visitedUrls c"
  "domainName (fst (adjustRateLimit h c)) = domainName c"
  "retryCounts (fst (adjustRateLimit h c)) = retryCounts c"
  "crawledData (fst (adjustRateLimit h c)) = crawledData c"
  "failedUrls (fst (adjustRateLimit h c)) = failedUrls c"
  "maxRetries (fst (adjustRateLimit h c)) = maxRetries c"
  by (subst adjustRateLimit_frame, simp)+

lemma same_queue_ex: "\<exists>q. c = c\<lparr>urlQueue := q\<rparr>"
  by (rule exI[of _ "urlQueue c"]) simp

lemma push_links_frame_ex: "\<exists>q. fst (push_links U ls c) = c\<lparr>urlQueue := q\<rparr>"
proof (induction ls arbitrary: c)
  case Nil
  show ?case by (simp add: same_queue_ex)
next
  case (Cons l ls)
  from Cons[of "c\<lparr>urlQueue := urlQueue c @ [l]\<rparr>"]
  obtain q where "fst (push_links U ls (c\<lparr>urlQueue := urlQueue c @ [l]\<rparr>)) = c\<lparr>urlQueue := q\<rparr>"
    by auto
  then show ?case using Cons[of c]
    by (auto simp: same_queue_ex split: option.splits)
qed

lemma push_links_frame:
  "fst (push_links U ls c) = c\<lparr>urlQueue := urlQueue (fst (push_links U ls c))\<rparr>"
proof -
  obtain q where q: "fst (push_links U ls c) = c\<lparr>urlQueue := q\<rparr>"
    using push_links_frame_ex by blast
  show ?thesis by (simp add: q)
qed

lemma push_fields [simp]:
  "visitedUrls (fst (push_links U ls c)) = visitedUrls c"
  "domainName (fst (push_links U ls c)) = domainName c"
  "retryCounts (fst (push_links U ls c)) = retryCounts c"
  "crawledData (fst (push_links U ls c)) = crawledData c"
  "failedUrls (fst (push_links U ls c)) = failedUrls c"
  "maxRetries (fst (push_links U ls c)) = maxRetries c"
  by (subst push_links_frame, simp)+

lemma wanted_frame [simp]:
  "wanted U (c\<lparr>urlQueue := q\<rparr>) = wanted U c"
  "wanted U (c\<lparr>crawledData := d\<rparr>) = wanted U c"
  "wanted U (fst (adjustRateLimit h c)) = wanted U c"
  by (simp_all add: wanted_def fun_eq_iff)

lemma push_links_queue:
  "urlQueue (fst (push_links U ls c)) =
     urlQueue c @ filter (wanted U c)
       (takeWhile (\<lambda>l. l \<in> visitedUrls c \<or> hostname U l \<noteq> None) ls)"
  by (induction ls arbitrary: c) (auto simp: wanted_def split: option.splits)

lemma retry_begin_fields [simp]:
  "urlQueue (fst (handleRetry_begin u c)) = urlQueue c"
  "visitedUrls (fst (handleRetry_begin u c)) = visitedUrls c"
  "domainName (fst (handleRetry_begin u c)) = domainName c"
  "crawledData (fst (handleRetry_begin u c)) = crawledData c"
  "maxRetries (fst (handleRetry_begin u c)) = maxRetries c"
  "dynamicDelay (fst (handleRetry_begin u c)) = dynamicDelay c"
  by (simp_all add: handleRetry_begin_def Let_def split: option.splits)

lemma retry_begin_failed:
  "x \<noteq> u \<Longrightarrow> failedUrls (fst (handleRetry_begin u c)) x = failedUrls c x"
  by (simp add: handleRetry_begin_def Let_def split: option.splits)

lemma retry_resume_fields [simp]:
  "urlQueue (handleRetry_resume u h c) = urlQueue c @ [u]"
  "visitedUrls (handleRetry_resume u h c) = visitedUrls c"
  "domainName (handleRetry_resume u h c) = domainName c"
  "crawledData (handleRetry_resume u h c) = crawledData c"
  "failedUrls (handleRetry_resume u h c) = failedUrls c"
  "retryCounts (handleRetry_resume u h c) = retryCounts c"
  "maxRetries (handleRetry_resume u h c) = maxRetries c"
  by (simp_all add: handleRetry_resume_def Let_def split: option.splits)

lemma fetch_resume_fields [simp]:
  "visitedUrls (fst (fetchAndProcess_resume U u a c)) = visitedUrls c"
  "domainName (fst (fetchAndProcess_resume U u a c)) = domainName c"
  by (simp_all add: fetchAndProcess_resume_def Let_def split_beta split: response.splits option.splits)

lemma fetch_resume_resolved_queue:
  "urlQueue (fst (fetchAndProcess_resume U u (Resolved page h) c)) =
     urlQueue c @ filter (wanted U c)
       (takeWhile (\<lambda>l. l \<in> visitedUrls c \<or> hostname U l \<noteq> None) (extractLinks U page u))"
  by (simp add: fetchAndProcess_resume_def Let_def split_beta push_links_queue split: option.splits)

lemma fetch_resume_rejected_queue:
  "urlQueue (fst (fetchAndProcess_resume U u (Rejected h) c)) = urlQueue c"
  by (simp add: fetchAndProcess_resume_def split_beta)

lemma fetch_resume_crawled:
  "crawledData (fst (fetchAndProcess_resume U u a c)) =
     (case a of Resolved page h \<Rightarrow> (crawledData c)(u \<mapsto> new_Set (extractLinks U page u))
      | Rejected h \<Rightarrow> crawledData c)"
  by (simp add: fetchAndProcess_resume_def Let_def split_beta split: response.splits option.splits)

lemma fetch_resume_failed:
  "x \<noteq> u \<Longrightarrow> failedUrls (fst (fetchAndProcess_resume U u a c)) x = failedUrls c x"
  by (simp add: fetchAndProcess_resume_def Let_def split_beta retry_begin_failed
      split: response.splits option.splits)

subsection \<open>Runs\<close>

lemma run_invariant:
  assumes "run U evs s = Some s'" and "P s"
    and step: "\<And>s ev s'. P s \<Longrightarrow> fire U ev s = Some s' \<Longrightarrow> P s'"
  shows "P s'"
  using assms(1,2)
proof (induction evs arbitrary: s)
  case Nil
  then show ?case by simp
next
  case (Cons ev evs)
  then show ?case using step by (auto split: option.splits)
qed

lemma crawl_Some:
  "crawl U seed mc mr evs = Some s \<Longrightarrow>
     \<exists>c. constructor U seed mc mr = Inr c \<and> run U evs (start c) = Some s"
  by (auto simp: crawl_def split: sum.splits)

lemma constructor_Inr:
  "constructor U seed mc mr = Inr c \<Longrightarrow>
     \<exists>url. seed = Some url \<and> url \<noteq> [] \<and> hostname U url = Some (domainName c) \<and>
       urlQueue c = [url] \<and> visitedUrls c = {} \<and> crawledData c = Map.empty \<and>
       failedUrls c = Map.empty \<and> retryCounts c = Map.empty \<and> dynamicDelay c = Num 100"
  by (auto simp: constructor_def split: option.splits if_splits)

subsection \<open>Events\<close>

lemma fire_Pass: "fire U Pass s = crawl_pass s"
  by (simp add: fire_def)

lemma fire_Answer:
  "fire U (Answer u a) s =
     (if u \<in> set (fetching s)
      then Some (s\<lparr>obj := (fst (fetchAndProcess_resume U u a (obj s)))
                     \<lparr>activeRequests := activeRequests (fst (fetchAndProcess_resume U u a (obj s))) - 1\<rparr>,
                   fetching := remove1 u (fetching s),
                   retrying := (case snd (fetchAndProcess_resume U u a (obj s)) of
                                  None \<Rightarrow> retrying s
                                | Some h \<Rightarrow> retrying s @ [(u, h)])\<rparr>)
      else None)"
  by (simp add: fire_def split_beta)

lemma fire_Timer:
  "fire U (Timer k) s =
     (if k < length (retrying s)
      then Some (s\<lparr>obj := handleRetry_resume (fst (retrying s ! k)) (snd (retrying s ! k)) (obj s),
                   retrying := take k (retrying s) @ drop (Suc k) (retrying s)\<rparr>)
      else None)"
  by (simp add: fire_def split_beta)

lemma crawl_pass_cases:
  assumes "crawl_pass s = Some s'"
  shows "s' = s\<lparr>finished := True\<rparr> \<or> s' = s \<or>
         (\<exists>u rest. urlQueue (obj s) = u # rest \<and> u \<in> visitedUrls (obj s) \<and>
            s' = s\<lparr>obj := (obj s)\<lparr>urlQueue := rest\<rparr>\<rparr>) \<or>
         (\<exists>u rest. urlQueue (obj s) = u # rest \<and> u \<notin> visitedUrls (obj s) \<and>
            s' = s\<lparr>obj := (obj s)\<lparr>urlQueue := rest,
                                    visitedUrls := insert u (visitedUrls (obj s)),
                                    activeRequests := activeRequests (obj s) + 1\<rparr>,
                    fetching := fetching s @ [u],
                    dispatched := dispatched s @ [u]\<rparr>)"
  using assms by (auto simp: crawl_pass_def Let_def split: if_splits list.splits)

lemma nth_retrying: "k < length R \<Longrightarrow> (fst (R ! k), snd (R ! k)) \<in> set R"
  by simp

lemma in_remove1: "x \<in> set (remove1 u xs) \<Longrightarrow> x \<in> set xs"
  using notin_set_remove1[of x xs u] by blast

lemma visited_inv_start: "visitedUrls c = {} \<Longrightarrow> visited_inv (start c)"
  by (simp add: visited_inv_def start_def)

lemma visited_inv_iff:
  "visited_inv s \<longleftrightarrow>
     (\<forall>u\<in>set (fetching s). u \<in> visitedUrls (obj s)) \<and>
     (\<forall>(u, h)\<in>set (retrying s). u \<in> visitedUrls (obj s)) \<and>
     set (dispatched s) = visitedUrls (obj s) \<and> distinct (dispatched s)"
  by (simp add: visited_inv_def subset_eq case_prod_beta)

lemma host_inv_iff:
  "host_inv U s \<longleftrightarrow>
     (\<forall>u\<in>set (urlQueue (obj s)). hostname U u = Some (domainName (obj s))) \<and>
     (\<forall>u\<in>set (fetching s). hostname U u = Some (domainName (obj s))) \<and>
     (\<forall>(u, h)\<in>set (retrying s). hostname U u = Some (domainName (obj s)))"
  by (simp add: host_inv_def ball_Un case_prod_beta)

lemma records_inv_iff:
  "records_inv s \<longleftrightarrow>
     (\<forall>x y. crawledData (obj s) x = Some y \<longrightarrow> x \<in> visitedUrls (obj s)) \<and>
     (\<forall>x y. failedUrls (obj s) x = Some y \<longrightarrow> x \<in> visitedUrls (obj s))"
  by (auto simp: records_inv_def)

subsection \<open>The invariants hold in every session\<close>

lemma visited_inv_fire:
  assumes "visited_inv s" "fire U ev s = Some s'"
  shows "visited_inv s'"
proof (cases ev)
  case Pass
  then have "crawl_pass s = Some s'" using assms by (simp add: fire_Pass)
  from crawl_pass_cases[OF this] show ?thesis using assms(1)
    by (auto simp: visited_inv_iff)
next
  case (Answer u a)
  then show ?thesis using assms
    by (auto simp: fire_Answer visited_inv_iff split: if_splits option.splits dest: in_remove1)
next
  case (Timer k)
  then have k: "k < length (retrying s)" using assms by (simp add: fire_Timer split: if_splits)
  from Timer k nth_retrying[OF k] show ?thesis using assms
    by (auto simp: fire_Timer visited_inv_iff dest!: in_set_takeD in_set_dropD)
qed

lemma visited_inv_crawl:
  assumes "crawl U seed mc mr evs = Some s"
  shows "visited_inv s"
proof -
  obtain c where c: "constructor U seed mc mr = Inr c" "run U evs (start c) = Some s"
    using assms crawl_Some by blast
  then have "visited_inv (start c)" using constructor_Inr visited_inv_start by blast
  with c(2) show ?thesis
    by (rule run_invariant[where P = visited_inv]) (rule visited_inv_fire)
qed

lemma host_inv_fire:
  assumes "host_inv U s" "fire U ev s = Some s'"
  shows "host_inv U s'"
proof (cases ev)
  case Pass
  then have "crawl_pass s = Some s'" using assms by (simp add: fire_Pass)
  from crawl_pass_cases[OF this] show ?thesis using assms(1)
    by (auto simp: host_inv_iff)
next
  case (Answer u a)
  show ?thesis
  proof (cases a)
    case (Resolved page h)
    then show ?thesis using assms Answer
      by (auto simp: fire_Answer host_inv_iff fetch_resume_resolved_queue wanted_def
          split: if_splits option.splits dest: in_remove1)
  next
    case (Rejected h)
    then show ?thesis using assms Answer
      by (auto simp: fire_Answer host_inv_iff fetch_resume_rejected_queue
          split: if_splits option.splits dest: in_remove1)
  qed
next
  case (Timer k)
  then have k: "k < length (retrying s)" using assms by (simp add: fire_Timer split: if_splits)
  obtain u h where uh: "retrying s ! k = (u, h)" by (cases "retrying s ! k")
  then have mem: "(u, h) \<in> set (retrying s)" using k by (metis nth_mem)
  from Timer k uh mem show ?thesis using assms
    by (auto simp: fire_Timer host_inv_iff dest!: in_set_takeD in_set_dropD)
qed

lemma host_inv_crawl:
  assumes "crawl U seed mc mr evs = Some s"
  shows "host_inv U s"
proof -
  obtain c where c: "constructor U seed mc mr = Inr c" "run U evs (start c) = Some s"
    using assms crawl_Some by blast
  then have "host_inv U (start c)" using constructor_Inr[OF c(1)]
    by (auto simp: host_inv_def start_def)
  with c(2) show ?thesis
    by (rule run_invariant[where P = "host_inv U"]) (rule host_inv_fire)
qed

lemma domainName_fire: "fire U ev s = Some s' \<Longrightarrow> domainName (obj s') = domainName (obj s)"
proof (cases ev)
  case Pass
  assume "fire U ev s = Some s'"
  then have "crawl_pass s = Some s'" using Pass by (simp add: fire_Pass)
  from crawl_pass_cases[OF this] show ?thesis by auto
next
  case (Answer u a)
  assume "fire U ev s = Some s'"
  then show ?thesis using Answer by (auto simp: fire_Answer split: if_splits)
next
  case (Timer k)
  assume "fire U ev s = Some s'"
  then show ?thesis using Timer by (auto simp: fire_Timer split: if_splits)
qed

lemma records_inv_fire:
  assumes "visited_inv s \<and> records_inv s" "fire U ev s = Some s'"
  shows "visited_inv s' \<and> records_inv s'"
proof
  show "visited_inv s'" using assms visited_inv_fire by blast
  show "records_inv s'"
  proof (cases ev)
    case Pass
    then have "crawl_pass s = Some s'" using assms by (simp add: fire_Pass)
    from crawl_pass_cases[OF this] show ?thesis using assms(1)
      by (auto simp: records_inv_iff)
  next
    case (Answer u a)
    then have u: "u \<in> visitedUrls (obj s)" using assms
      by (auto simp: fire_Answer visited_inv_iff split: if_splits)
    have v: "visitedUrls (obj s') = visitedUrls (obj s)" using assms Answer
      by (auto simp: fire_Answer split: if_splits)
    have c: "crawledData (obj s') x = Some y \<Longrightarrow> x \<noteq> u \<Longrightarrow> crawledData (obj s) x = Some y" for x y
      using assms Answer
      by (auto simp: fire_Answer fetch_resume_crawled split: if_splits response.splits)
    have f: "failedUrls (obj s') x = Some y \<Longrightarrow> x \<noteq> u \<Longrightarrow> failedUrls (obj s) x = Some y" for x y
      using assms Answer
      by (auto simp: fire_Answer fetch_resume_failed split: if_splits)
    show ?thesis unfolding records_inv_iff v
      using u c f assms(1) unfolding records_inv_iff by blast
  next
    case (Timer k)
    then show ?thesis using assms
      by (auto simp: fire_Timer records_inv_iff split: if_splits)
  qed
qed

lemma records_inv_crawl:
  assumes "crawl U seed mc mr evs = Some s"
  shows "records_inv s"
proof -
  obtain c where c: "constructor U seed mc mr = Inr c" "run U evs (start c) = Some s"
    using assms crawl_Some by blast
  then have "visited_inv (start c) \<and> records_inv (start c)"
    using constructor_Inr[OF c(1)] by (auto simp: records_inv_def visited_inv_def start_def)
  with c(2) have "visited_inv s \<and> records_inv s"
    by (rule run_invariant[where P = "\<lambda>s. visited_inv s \<and> records_inv s"]) (rule records_inv_fire)
  then show ?thesis by simp
qed

subsection \<open>The log of fetches\<close>

lemma dispatched_fire: "fire U ev s = Some s' \<Longrightarrow> \<exists>r. dispatched s' = dispatched s @ r"
proof (cases ev)
  case Pass
  assume "fire U ev s = Some s'"
  then have "crawl_pass s = Some s'" using Pass by (simp add: fire_Pass)
  from crawl_pass_cases[OF this] show ?thesis by auto
next
  case (Answer u a)
  assume "fire U ev s = Some s'"
  then show ?thesis using Answer by (auto simp: fire_Answer split: if_splits)
next
  case (Timer k)
  assume "fire U ev s = Some s'"
  then show ?thesis using Timer by (auto simp: fire_Timer split: if_splits)
qed

lemma dispatched_run: "run U evs s = Some s' \<Longrightarrow> \<exists>r. dispatched s' = dispatched s @ r"
proof (induction evs arbitrary: s)
  case Nil
  then show ?case by simp
next
  case (Cons ev evs)
  then obtain s1 where s1: "fire U ev s = Some s1" "run U evs s1 = Some s'"
    by (auto split: option.splits)
  then show ?case using dispatched_fire[OF s1(1)] Cons.IH[OF s1(2)] by auto
qed

lemma skip_visited:
  assumes "urlQueue (obj s) = u # rest" "u \<in> visitedUrls (obj s)" "\<not> finished s"
    "activeRequests (obj s) < maxConcurrency (obj s)"
  shows "crawl_pass s = Some (s\<lparr>obj := (obj s)\<lparr>urlQueue := rest\<rparr>\<rparr>)"
  using assms by (simp add: crawl_pass_def Let_def)

lemma count_list_distinct: "distinct xs \<Longrightarrow> count_list xs x = (if x \<in> set xs then 1 else 0)"
  by (induction xs) auto

lemma visited_inv_run: "visited_inv s \<Longrightarrow> run U evs s = Some s' \<Longrightarrow> visited_inv s'"
  by (rule run_invariant[where P = visited_inv]) (auto intro: visited_inv_fire)

lemma crawled_fire:
  assumes "fire U ev s = Some s'" "crawledData (obj s') u = Some ls"
  shows "crawledData (obj s) u = Some ls \<or>
         (\<exists>page h. ev = Answer u (Resolved page h) \<and> ls = new_Set (extractLinks U page u))"
proof (cases ev)
  case Pass
  then have "crawl_pass s = Some s'" using assms by (simp add: fire_Pass)
  from crawl_pass_cases[OF this] show ?thesis using assms(2) by auto
next
  case (Answer v a)
  then show ?thesis using assms
    by (auto simp: fire_Answer fetch_resume_crawled split: if_splits response.splits)
next
  case (Timer k)
  then show ?thesis using assms by (auto simp: fire_Timer split: if_splits)
qed

lemma crawled_run:
  assumes "run U evs s = Some s'" "crawledData (obj s') u = Some ls"
  shows "crawledData (obj s) u = Some ls \<or>
         (\<exists>page h. Answer u (Resolved page h) \<in> set evs \<and> ls = new_Set (extractLinks U page u))"
  using assms
proof (induction evs arbitrary: s)
  case Nil
  then show ?case by simp
next
  case (Cons ev evs)
  then obtain s1 where s1: "fire U ev s = Some s1" "run U evs s1 = Some s'"
    by (auto split: option.splits)
  from Cons.IH[OF s1(2) Cons.prems(2)] show ?case
  proof
    assume "crawledData (obj s1) u = Some ls"
    from crawled_fire[OF s1(1) this] show ?thesis by auto
  next
    assume "\<exists>page h. Answer u (Resolved page h) \<in> set evs \<and> ls = new_Set (extractLinks U page u)"
    then show ?thesis by auto
  qed
qed

lemma domainName_run: "run U evs s = Some s' \<Longrightarrow> domainName (obj s') = domainName (obj s)"
  by (rule run_invariant[where P = "\<lambda>x. domainName (obj x) = domainName (obj s)"])
    (auto dest: domainName_fire)

subsection \<open>First occurrences\<close>

lemma new_Set_snoc: "new_Set (xs @ [x]) = Set_add (new_Set xs) x"
  by (simp add: new_Set_def)

lemma set_new_Set: "set (new_Set xs) = set xs"
proof (induction xs rule: rev_induct)
  case Nil
  show ?case by (simp add: new_Set_def)
next
  case (snoc x xs)
  then show ?case by (auto simp: new_Set_snoc Set_add_def)
qed

lemma distinct_new_Set: "distinct (new_Set xs)"
proof (induction xs rule: rev_induct)
  case Nil
  show ?case by (simp add: new_Set_def)
next
  case (snoc x xs)
  then show ?case by (auto simp: new_Set_snoc Set_add_def)
qed

lemma first_occurrences_snoc:
  "first_occurrences (xs @ [x]) =
     (if x \<in> set xs then first_occurrences xs else first_occurrences xs @ [x])"
proof -
  have "filter (\<lambda>i. (xs @ [x]) ! i \<notin> set (take i (xs @ [x]))) [0..<length xs] =
        filter (\<lambda>i. xs ! i \<notin> set (take i xs)) [0..<length xs]"
    by (rule filter_cong) (auto simp: nth_append)
  moreover have "map (\<lambda>i. (xs @ [x]) ! i) (filter (\<lambda>i. xs ! i \<notin> set (take i xs)) [0..<length xs]) =
        map (\<lambda>i. xs ! i) (filter (\<lambda>i. xs ! i \<notin> set (take i xs)) [0..<length xs])"
    by (rule map_cong) (auto simp: nth_append)
  ultimately show ?thesis by (simp add: first_occurrences_def)
qed

lemma new_Set_first_occurrences: "new_Set xs = first_occurrences xs"
proof (induction xs rule: rev_induct)
  case Nil
  show ?case by (simp add: new_Set_def first_occurrences_def)
next
  case (snoc x xs)
  have "set (first_occurrences xs) = set xs" using set_new_Set[of xs] snoc by simp
  then show ?case using snoc
    by (simp add: new_Set_snoc Set_add_def first_occurrences_snoc)
qed

subsection \<open>Retries, rate limit and extraction\<close>

lemma adjust_at_least_100:
  "at_least_100 (dynamicDelay c) \<Longrightarrow> at_least_100 (dynamicDelay (fst (adjustRateLimit h c)))"
  by (auto simp add: adjustRateLimit_def Let_def at_least_100_def identifier_ref_def
      module_bindings_def split: option.splits jsnum.splits)

lemma handleRetry_below:
  assumes "(case retryCounts c u of None \<Rightarrow> 0 | Some k \<Rightarrow> k) < maxRetries c"
  shows "retryCounts (handleRetry u h c) =
           (retryCounts c)(u \<mapsto> (case retryCounts c u of None \<Rightarrow> 0 | Some k \<Rightarrow> k) + 1)"
    and "urlQueue (handleRetry u h c) = urlQueue c @ [u]"
    and "failedUrls (handleRetry u h c) = failedUrls c"
    and "maxRetries (handleRetry u h c) = maxRetries c"
  using assms
  by (auto simp: handleRetry_def handleRetry_begin_def Let_def split: option.splits)

lemma handleRetry_exhausted:
  assumes "retryCounts c u = Some n" "\<not> n < maxRetries c"
  shows "retryCounts (handleRetry u h c) = retryCounts c"
    and "urlQueue (handleRetry u h c) = urlQueue c"
    and "failedUrls (handleRetry u h c) = (failedUrls c)(u \<mapsto> n)"
  using assms
  by (auto simp: handleRetry_def handleRetry_begin_def Let_def split: option.splits)

lemma handleRetry_three_times:
  assumes "maxRetries c = 3" and "retryCounts c u = None"
  shows "retryCounts (handleRetry u h3 (handleRetry u h2 (handleRetry u h1 c))) u = Some 3"
    and "urlQueue (handleRetry u h3 (handleRetry u h2 (handleRetry u h1 c))) = urlQueue c @ [u, u, u]"
    and "failedUrls (handleRetry u h3 (handleRetry u h2 (handleRetry u h1 c))) = failedUrls c"
    and "maxRetries (handleRetry u h3 (handleRetry u h2 (handleRetry u h1 c))) = 3"
proof -
  define c1 where "c1 = handleRetry u h1 c"
  define c2 where "c2 = handleRetry u h2 c1"
  have 1: "retryCounts c1 u = Some 1" "urlQueue c1 = urlQueue c @ [u]"
    "failedUrls c1 = failedUrls c" "maxRetries c1 = 3"
    unfolding c1_def using assms by (simp_all add: handleRetry_below)
  have 2: "retryCounts c2 u = Some 2" "urlQueue c2 = urlQueue c @ [u, u]"
    "failedUrls c2 = failedUrls c" "maxRetries c2 = 3"
    unfolding c2_def using 1 by (simp_all add: handleRetry_below)
  show "retryCounts (handleRetry u h3 (handleRetry u h2 (handleRetry u h1 c))) u = Some 3"
    and "urlQueue (handleRetry u h3 (handleRetry u h2 (handleRetry u h1 c))) = urlQueue c @ [u, u, u]"
    and "failedUrls (handleRetry u h3 (handleRetry u h2 (handleRetry u h1 c))) = failedUrls c"
    and "maxRetries (handleRetry u h3 (handleRetry u h2 (handleRetry u h1 c))) = 3"
    using 2 unfolding c2_def c1_def by (simp_all add: handleRetry_below)
qed

lemma each_anchor_map_filter:
  "each_anchor U base hs links = links @ List.map_filter (\<lambda>h. href U h base) hs"
  by (induction hs arbitrary: links) (auto simp: map_filter_simps split: option.splits)

subsection \<open>The concrete session\<close>

lemmas node_defs = node_url_def node_hostname_def node_href_def parse_absolute_def
  split_scheme_def ends_host_def directory_def

lemma node_href_nonempty: "node_href h base \<noteq> Some []"
  by (auto simp: node_href_def parse_absolute_def split_scheme_def Let_def
      split: option.splits list.splits if_splits)

lemma constructor_example:
  "constructor node_url (Some ''http://example.com'') None None = Inr example_com"
  by (simp add: constructor_def node_defs example_com_def)

lemma extract_start_page:
  "extractLinks node_url start_page ''http://example.com'' =
     [''http://example.com/a'', ''http://example.com/a'', ''http://other.org/x'', ''http://example.com/'']"
  by (simp add: extractLinks_def start_page_def node_defs)

lemma host_a: "hostname node_url ''http://example.com/a'' = Some ''example.com''"
  by (simp add: node_defs Let_def)

lemma host_x: "hostname node_url ''http://other.org/x'' = Some ''other.org''"
  by (simp add: node_defs Let_def)

lemma host_home: "hostname node_url ''http://example.com/'' = Some ''example.com''"
  by (simp add: node_defs Let_def)

lemma parseInt_0: "parseInt ''0'' = Num 0"
  by (simp add: parseInt_def is_space_def is_digit_def digits_value_def)

lemma state_1_run: "crawl node_url (Some ''http://example.com'') None None events_1 = Some state_1"
  apply (simp add: crawl_def constructor_example events_1_def fire_Pass fire_Answer start_def
      example_com_def crawl_pass_def Let_def
      fetchAndProcess_resume_def extract_start_page new_Set_def Set_add_def
      adjustRateLimit_def parseInt_0 host_a host_x host_home handleRetry_begin_def state_1_def)
  apply (auto simp add: fun_eq_iff)
  done

lemma state_2_fire: "fire node_url (Timer 0) state_1 = Some state_2"
  by (simp add: fire_Timer state_1_def state_2_def handleRetry_resume_def)

lemma state_3_run: "run node_url events_2 state_2 = Some state_3"
  by (auto simp add: events_2_def fire_Pass crawl_pass_def Let_def state_3_def state_2_def state_1_def)

lemma home_fetching_reached:
  "map_option obj (crawl node_url (Some ''http://example.com/'') None None [Pass]) = Some home_fetching"
  by (simp add: crawl_def constructor_def host_home start_def fire_Pass crawl_pass_def Let_def home_fetching_def)

section \<open>Properties\<close>

subsection \<open>Retries\<close>

text \<open>
  C1, as the code has it. With \<open>maxRetries = 3\<close> and no retry count yet for \<open>u\<close>, three
  awaited calls of \<^verbatim>\<open>handleRetry\<close> leave the retry count of \<open>u\<close> at 3, requeue \<open>u\<close> three
  times and write nothing to \<open>failedUrls\<close>. The fourth call leaves the count at 3, does not
  requeue \<open>u\<close>, and is the one that writes \<open>failedUrls[u] = 3\<close>.
\<close>

theorem handleRetry_four_failures:
  assumes "maxRetries c = 3" and "retryCounts c u = None"
  shows "let c3 = handleRetry u h3 (handleRetry u h2 (handleRetry u h1 c));
             c4 = handleRetry u h4 c3
         in retryCounts c3 u = Some 3 \<and> failedUrls c3 = failedUrls c \<and>
            urlQueue c3 = urlQueue c @ [u, u, u] \<and>
            retryCounts c4 u = Some 3 \<and> urlQueue c4 = urlQueue c3 \<and>
            failedUrls c4 = (failedUrls c)(u \<mapsto> 3)"
proof -
  define c3 where "c3 = handleRetry u h3 (handleRetry u h2 (handleRetry u h1 c))"
  have 3: "retryCounts c3 u = Some 3" "urlQueue c3 = urlQueue c @ [u, u, u]"
    "failedUrls c3 = failedUrls c" "maxRetries c3 = 3"
    unfolding c3_def using handleRetry_three_times[OF assms] by simp_all
  have 4: "retryCounts (handleRetry u h4 c3) u = Some 3"
    "urlQueue (handleRetry u h4 c3) = urlQueue c3"
    "failedUrls (handleRetry u h4 c3) = (failedUrls c)(u \<mapsto> 3)"
    using 3 by (simp_all add: handleRetry_exhausted[of c3 u 3])
  show ?thesis using 3 4 unfolding Let_def c3_def by simp
qed

text \<open>The fresh crawler for \<^verbatim>\<open>http://example.com\<close> and a URL that fails four times.\<close>

theorem handleRetry_four_failures_witness:
  "maxRetries example_com = 3 \<and> retryCounts example_com retry_url = None \<and>
   retryCounts after_three_failures retry_url = Some 3 \<and>
   urlQueue after_three_failures = [''http://example.com'', retry_url, retry_url, retry_url] \<and>
   urlQueue (handleRetry retry_url None after_three_failures) = urlQueue after_three_failures \<and>
   retryCounts (handleRetry retry_url None after_three_failures) retry_url = Some 3 \<and>
   failedUrls (handleRetry retry_url None after_three_failures) = [retry_url \<mapsto> 3]"
proof -
  have a: "maxRetries example_com = 3" "retryCounts example_com retry_url = None"
    "failedUrls example_com = Map.empty" "urlQueue example_com = [''http://example.com'']"
    by (simp_all add: example_com_def)
  show ?thesis
    using handleRetry_four_failures[OF a(1,2), of None None None None] a
    by (simp add: Let_def after_three_failures_def)
qed

text \<open>
  C1 as stated fails: after the three calls the retry count is 3, and \<open>failedUrls\<close> has no
  entry for the URL.
\<close>

theorem three_failures_no_failed_record:
  "maxRetries example_com = 3 \<and> retryCounts example_com retry_url = None \<and>
   retryCounts after_three_failures retry_url = Some 3 \<and>
   failedUrls after_three_failures retry_url = None"
proof -
  have a: "maxRetries example_com = 3" "retryCounts example_com retry_url = None"
    "failedUrls example_com = Map.empty"
    by (simp_all add: example_com_def)
  show ?thesis
    using handleRetry_three_times[OF a(1,2), of None None None] a
    by (simp add: after_three_failures_def)
qed

subsection \<open>Rate limit\<close>

text \<open>
  C2 does not hold of the code. With a delay of 100 ms and the header \<^verbatim>\<open>retry-after: 5\<close>,
  \<^verbatim>\<open>adjustRateLimit\<close> rejects with a \<^verbatim>\<open>ReferenceError\<close> (line 145 calls \<^verbatim>\<open>log\<close>, which is not
  bound) and leaves the crawler as it was: the delay stays 100 ms, not 5000 ms.
\<close>

theorem retry_after_is_not_applied:
  "adjustRateLimit (Some [''retry-after'' \<mapsto> ''5'']) example_com = (example_com, Some ReferenceError) \<and>
   dynamicDelay example_com = Num 100"
  by (simp add: adjustRateLimit_def identifier_ref_def module_bindings_def example_com_def)

text \<open>
  C6. A call of \<^verbatim>\<open>adjustRateLimit\<close>, with any headers or with none, on a crawler whose delay
  is a number and at least 100 leaves such a delay; so from the delay of 100 ms that the
  constructor sets, any sequence of calls does.
\<close>

theorem dynamicDelay_at_least_100:
  "(at_least_100 (dynamicDelay c') \<longrightarrow>
      at_least_100 (dynamicDelay (fst (adjustRateLimit h c')))) \<and>
   (constructor U seed mc mr = Inr c \<longrightarrow>
      at_least_100 (dynamicDelay (foldl (\<lambda>c h. fst (adjustRateLimit h c)) c hs)))"
proof -
  have all: "at_least_100 (dynamicDelay x) \<Longrightarrow>
        at_least_100 (dynamicDelay (foldl (\<lambda>c h. fst (adjustRateLimit h c)) x hs))" for x
    by (induction hs arbitrary: x) (simp_all add: adjust_at_least_100)
  have "constructor U seed mc mr = Inr c \<Longrightarrow> at_least_100 (dynamicDelay c)"
    using constructor_Inr[of U seed mc mr c] by (auto simp: at_least_100_def)
  then show ?thesis using all adjust_at_least_100 by blast
qed

text \<open>
  One call, and four in a row: a quota left, a \<^verbatim>\<open>retry-after\<close> that is no number, no
  headers, no quota left together with a \<^verbatim>\<open>retry-after\<close>.
\<close>

theorem dynamicDelay_at_least_100_witness:
  "constructor node_url (Some ''http://example.com'') None None = Inr example_com \<and>
   at_least_100 (dynamicDelay example_com) \<and>
   at_least_100 (dynamicDelay (fst (adjustRateLimit (Some [''x-ratelimit-remaining'' \<mapsto> ''7'']) example_com))) \<and>
   at_least_100 (dynamicDelay (foldl (\<lambda>c h. fst (adjustRateLimit h c)) example_com
     [Some [''x-ratelimit-remaining'' \<mapsto> ''7''], Some [''retry-after'' \<mapsto> ''soon''], None,
      Some [''x-ratelimit-remaining'' \<mapsto> ''0'', ''retry-after'' \<mapsto> ''5'']]))"
proof -
  have a: "at_least_100 (dynamicDelay example_com)"
    by (simp add: example_com_def at_least_100_def)
  note t = dynamicDelay_at_least_100[of example_com
      "Some [''x-ratelimit-remaining'' \<mapsto> ''7'']" node_url "Some ''http://example.com''" None None
      example_com
      "[Some [''x-ratelimit-remaining'' \<mapsto> ''7''], Some [''retry-after'' \<mapsto> ''soon''], None,
        Some [''x-ratelimit-remaining'' \<mapsto> ''0'', ''retry-after'' \<mapsto> ''5'']]"]
  from t a have 1: "at_least_100 (dynamicDelay (fst (adjustRateLimit (Some [''x-ratelimit-remaining'' \<mapsto> ''7'']) example_com)))"
    by blast
  from t constructor_example have 2: "at_least_100 (dynamicDelay (foldl (\<lambda>c h. fst (adjustRateLimit h c)) example_com
     [Some [''x-ratelimit-remaining'' \<mapsto> ''7''], Some [''retry-after'' \<mapsto> ''soon''], None,
      Some [''x-ratelimit-remaining'' \<mapsto> ''0'', ''retry-after'' \<mapsto> ''5'']]))"
    by blast
  show ?thesis using constructor_example a 1 2 by blast
qed

subsection \<open>Link extraction\<close>

text \<open>
  C3, as the code has it. \<^verbatim>\<open>extractLinks\<close> returns, in document order, the resolved URL of
  every \<^verbatim>\<open>href\<close> that resolves against the base URL, and drops exactly those on which
  \<^verbatim>\<open>new URL\<close> throws. An empty \<^verbatim>\<open>href\<close> is no exception: when it resolves (to \<open>b\<close>), each
  anchor with an empty \<^verbatim>\<open>href\<close> gives an entry \<open>b\<close>. The empty string itself is not
  among the links when no reference resolves to it.
\<close>

theorem extractLinks_keeps_what_resolves:
  "extractLinks U page base = List.map_filter (\<lambda>h. href U h base) page \<and>
   (href U [] base = Some b \<longrightarrow>
      count_list page [] \<le> count_list (extractLinks U page base) b) \<and>
   ((\<forall>h. href U h base \<noteq> Some []) \<longrightarrow> [] \<notin> set (extractLinks U page base))"
proof -
  have 1: "extractLinks U page base = List.map_filter (\<lambda>h. href U h base) page"
    by (simp add: extractLinks_def each_anchor_map_filter)
  have 2: "href U [] base = Some b \<Longrightarrow>
      count_list page [] \<le> count_list (List.map_filter (\<lambda>h. href U h base) page) b"
    by (induction page) (auto simp: map_filter_simps split: option.splits)
  have 3: "\<forall>h. href U h base \<noteq> Some [] \<Longrightarrow>
      [] \<notin> set (List.map_filter (\<lambda>h. href U h base) page)"
    by (induction page) (auto simp: map_filter_simps split: option.splits)
  show ?thesis using 1 2 3 by simp
qed

text \<open>The start page of the concrete session has one anchor with an empty \<^verbatim>\<open>href\<close>.\<close>

theorem extractLinks_keeps_what_resolves_witness:
  "href node_url [] ''http://example.com'' = Some ''http://example.com/'' \<and>
   extractLinks node_url start_page ''http://example.com'' =
     List.map_filter (\<lambda>h. href node_url h ''http://example.com'') start_page \<and>
   count_list start_page [] = 1 \<and>
   1 \<le> count_list (extractLinks node_url start_page ''http://example.com'') ''http://example.com/'' \<and>
   [] \<notin> set (extractLinks node_url start_page ''http://example.com'')"
proof -
  have h: "href node_url [] ''http://example.com'' = Some ''http://example.com/''"
    by (simp add: node_defs Let_def)
  have n: "\<forall>h. href node_url h ''http://example.com'' \<noteq> Some []"
    by (simp add: node_url_def node_href_nonempty)
  have c: "count_list start_page [] = 1" by (simp add: start_page_def)
  note t = extractLinks_keeps_what_resolves[of node_url start_page "''http://example.com''"
      "''http://example.com/''"]
  from t have 1: "extractLinks node_url start_page ''http://example.com'' =
     List.map_filter (\<lambda>h. href node_url h ''http://example.com'') start_page" by (rule conjunct1)
  from t h have "count_list start_page [] \<le>
     count_list (extractLinks node_url start_page ''http://example.com'') ''http://example.com/''"
    by blast
  then have 2: "1 \<le> count_list (extractLinks node_url start_page ''http://example.com'') ''http://example.com/''"
    unfolding c .
  from t n have 3: "[] \<notin> set (extractLinks node_url start_page ''http://example.com'')"
    by blast
  show ?thesis using h 1 c 2 3 by blast
qed

text \<open>
  C3 as stated fails: a page whose only anchor has an empty \<^verbatim>\<open>href\<close> yields one link, the
  base URL.
\<close>

theorem empty_href_is_kept:
  "extractLinks node_url [[]] ''http://example.com'' = [''http://example.com/'']"
  by (simp add: extractLinks_def node_defs Let_def)

subsection \<open>The frontier\<close>

text \<open>
  C4, as the code has it. After a successful fetch, the queue is extended by the links of
  the page that are not in the visited set and whose hostname is the crawler's, in page
  order and with their repetitions: such a link that occurs \<open>k\<close> times on the page is
  appended \<open>k\<close> times, and a link in the visited set is not appended. This is for a page
  all of whose unvisited links parse as URLs.
\<close>

theorem links_enqueued_unless_visited:
  assumes "\<forall>l\<in>set (extractLinks U page url). l \<in> visitedUrls c \<or> hostname U l \<noteq> None"
  shows "urlQueue (fst (fetchAndProcess_resume U url (Resolved page h) c)) =
           urlQueue c @ filter (wanted U c) (extractLinks U page url) \<and>
         (wanted U c l \<longrightarrow>
            count_list (urlQueue (fst (fetchAndProcess_resume U url (Resolved page h) c))) l =
              count_list (urlQueue c) l + count_list (extractLinks U page url) l) \<and>
         (l \<in> visitedUrls c \<longrightarrow>
            count_list (urlQueue (fst (fetchAndProcess_resume U url (Resolved page h) c))) l =
              count_list (urlQueue c) l)"
proof -
  have tw: "takeWhile (\<lambda>l. l \<in> visitedUrls c \<or> hostname U l \<noteq> None) (extractLinks U page url) =
        extractLinks U page url"
    using assms by (simp add: takeWhile_eq_all_conv)
  have q: "urlQueue (fst (fetchAndProcess_resume U url (Resolved page h) c)) =
           urlQueue c @ filter (wanted U c) (extractLinks U page url)"
    by (simp only: fetch_resume_resolved_queue tw)
  have cnt: "count_list (filter P xs) l = (if P l then count_list xs l else 0)"
    for P and xs :: "string list"
    by (induction xs) auto
  show ?thesis using q by (simp add: cnt wanted_def)
qed

text \<open>The start page of the concrete session, fetched from the start URL.\<close>

theorem links_enqueued_unless_visited_witness:
  "visitedUrls seed_fetching = {''http://example.com''} \<and>
   extractLinks node_url start_page ''http://example.com'' =
     [''http://example.com/a'', ''http://example.com/a'', ''http://other.org/x'', ''http://example.com/''] \<and>
   urlQueue (fst (fetchAndProcess_resume node_url ''http://example.com''
                    (Resolved start_page None) seed_fetching)) =
     [''http://example.com/a'', ''http://example.com/a'', ''http://example.com/'']"
proof -
  have hyp: "\<forall>l\<in>set (extractLinks node_url start_page ''http://example.com'').
      l \<in> visitedUrls seed_fetching \<or> hostname node_url l \<noteq> None"
    by (simp add: extract_start_page host_a host_x host_home)
  have "urlQueue (fst (fetchAndProcess_resume node_url ''http://example.com''
                    (Resolved start_page None) seed_fetching)) =
        urlQueue seed_fetching @ filter (wanted node_url seed_fetching)
          (extractLinks node_url start_page ''http://example.com'')"
    using links_enqueued_unless_visited[OF hyp] by blast
  also have "\<dots> = [''http://example.com/a'', ''http://example.com/a'', ''http://example.com/'']"
    by (simp add: extract_start_page wanted_def seed_fetching_def example_com_def
        host_a host_x host_home)
  finally show ?thesis
    by (simp add: extract_start_page seed_fetching_def)
qed

text \<open>
  C4 as stated fails: the page at \<^verbatim>\<open>http://example.com/\<close> links to itself, the link has the
  crawler's hostname, and it is not appended to the queue, because it is visited.
\<close>

theorem visited_link_is_not_enqueued:
  "map_option obj (crawl node_url (Some ''http://example.com/'') None None [Pass]) =
     Some home_fetching \<and>
   visitedUrls home_fetching = {''http://example.com/''} \<and>
   urlQueue home_fetching = [] \<and>
   extractLinks node_url [''/''] ''http://example.com/'' = [''http://example.com/''] \<and>
   hostname node_url ''http://example.com/'' = Some (domainName home_fetching) \<and>
   urlQueue (fst (fetchAndProcess_resume node_url ''http://example.com/''
                    (Resolved [''/''] (Some Map.empty)) home_fetching)) = []"
proof -
  have e: "extractLinks node_url [''/''] ''http://example.com/'' = [''http://example.com/'']"
    by (simp add: extractLinks_def node_defs Let_def)
  show ?thesis
    by (simp add: fetch_resume_resolved_queue e host_home wanted_def home_fetching_def
        home_fetching_reached[unfolded home_fetching_def])
qed

text \<open>
  C5. Take a session in which the timer of a waiting retry for \<open>u\<close> fires. The retry appends
  \<open>u\<close> to the queue, and \<open>u\<close> is in the visited set. Whatever happens afterwards,
  \<^verbatim>\<open>fetchAndProcess\<close> has been called for \<open>u\<close> exactly once, and that call was made before
  the retry: no call made after it is for \<open>u\<close>. When the loop finds \<open>u\<close> at the head of
  the queue, the pass only removes it.
\<close>

theorem requeued_url_is_never_fetched_again:
  assumes "crawl U seed mc mr evs1 = Some s1"
    and "k < length (retrying s1)" and "u = fst (retrying s1 ! k)"
    and "fire U (Timer k) s1 = Some s2"
    and "run U evs2 s2 = Some s3"
  shows "urlQueue (obj s2) = urlQueue (obj s1) @ [u] \<and> u \<in> visitedUrls (obj s2) \<and>
         count_list (dispatched s1) u = 1 \<and> count_list (dispatched s3) u = 1 \<and>
         take (length (dispatched s1)) (dispatched s3) = dispatched s1 \<and>
         u \<notin> set (drop (length (dispatched s1)) (dispatched s3)) \<and>
         (urlQueue (obj s3) = u # rest \<and> \<not> finished s3 \<and>
          activeRequests (obj s3) < maxConcurrency (obj s3) \<longrightarrow>
            crawl_pass s3 = Some (s3\<lparr>obj := (obj s3)\<lparr>urlQueue := rest\<rparr>\<rparr>))"
proof -
  have inv1: "visited_inv s1" using assms(1) by (rule visited_inv_crawl)
  obtain h where uh: "retrying s1 ! k = (u, h)" using assms(3) by (cases "retrying s1 ! k") simp
  then have "(u, h) \<in> set (retrying s1)" using assms(2) by (metis nth_mem)
  then have u1: "u \<in> visitedUrls (obj s1)" using inv1 by (auto simp: visited_inv_iff)
  have s2: "s2 = s1\<lparr>obj := handleRetry_resume u h (obj s1),
                     retrying := take k (retrying s1) @ drop (Suc k) (retrying s1)\<rparr>"
    using assms(2,4) uh by (simp add: fire_Timer)
  have q: "urlQueue (obj s2) = urlQueue (obj s1) @ [u]" by (simp add: s2)
  have v2: "u \<in> visitedUrls (obj s2)" using u1 by (simp add: s2)
  have d2: "dispatched s2 = dispatched s1" by (simp add: s2)
  have inv2: "visited_inv s2" using inv1 assms(4) by (rule visited_inv_fire)
  have inv3: "visited_inv s3" using inv2 assms(5) by (rule visited_inv_run)
  obtain r where r: "dispatched s3 = dispatched s1 @ r"
    using dispatched_run[OF assms(5)] d2 by auto
  have in1: "u \<in> set (dispatched s1)" using inv1 u1 by (simp add: visited_inv_iff)
  have dist1: "distinct (dispatched s1)" using inv1 by (simp add: visited_inv_iff)
  have dist3: "distinct (dispatched s3)" using inv3 by (simp add: visited_inv_iff)
  have notr: "u \<notin> set r" using dist3 in1 unfolding r by auto
  have c1: "count_list (dispatched s1) u = 1" using dist1 in1 by (simp add: count_list_distinct)
  have c3: "count_list (dispatched s3) u = 1" using c1 notr by (simp add: r)
  have v3: "u \<in> visitedUrls (obj s3)" using inv3 in1 r by (auto simp: visited_inv_iff)
  have skip: "urlQueue (obj s3) = u # rest \<and> \<not> finished s3 \<and>
          activeRequests (obj s3) < maxConcurrency (obj s3) \<longrightarrow>
            crawl_pass s3 = Some (s3\<lparr>obj := (obj s3)\<lparr>urlQueue := rest\<rparr>\<rparr>)"
    using v3 skip_visited by blast
  show ?thesis using q v2 c1 c3 notr skip by (simp add: r)
qed

text \<open>
  The concrete session: the fetch of \<^verbatim>\<open>/a\<close> fails, its retry requeues it, and the two passes
  that follow drop it and fetch the next URL.
\<close>

theorem requeued_url_is_never_fetched_again_witness:
  "crawl node_url (Some ''http://example.com'') None None events_1 = Some state_1 \<and>
   fire node_url (Timer 0) state_1 = Some state_2 \<and>
   run node_url events_2 state_2 = Some state_3 \<and>
   urlQueue (obj state_2) = urlQueue (obj state_1) @ [''http://example.com/a''] \<and>
   count_list (dispatched state_3) ''http://example.com/a'' = 1 \<and>
   ''http://example.com/a'' \<notin> set (drop (length (dispatched state_1)) (dispatched state_3))"
proof -
  have k: "0 < length (retrying state_1)" by (simp add: state_1_def)
  have u: "''http://example.com/a'' = fst (retrying state_1 ! 0)" by (simp add: state_1_def)
  show ?thesis
    using requeued_url_is_never_fetched_again[OF state_1_run k u state_2_fire state_3_run]
      state_1_run state_2_fire state_3_run
    by blast
qed

text \<open>
  C8. In every state of a session, each URL in the queue has the hostname of the start
  URL, and so has each URL being fetched or waiting for a retry; the hostname of the start
  URL is the crawler's \<open>domainName\<close>.
\<close>

theorem frontier_stays_on_seed_host:
  assumes "crawl U (Some seed) mc mr evs = Some s"
  shows "hostname U seed = Some (domainName (obj s)) \<and>
         (\<forall>u \<in> set (urlQueue (obj s)) \<union> set (fetching s) \<union> fst ` set (retrying s).
            hostname U u = hostname U seed)"
proof -
  obtain c where c: "constructor U (Some seed) mc mr = Inr c" "run U evs (start c) = Some s"
    using assms crawl_Some by blast
  have "hostname U seed = Some (domainName c)" using constructor_Inr[OF c(1)] by auto
  moreover have "domainName (obj s) = domainName c"
    using domainName_run[OF c(2)] by (simp add: start_def)
  ultimately have h: "hostname U seed = Some (domainName (obj s))" by simp
  have "host_inv U s" using assms by (rule host_inv_crawl)
  then show ?thesis using h by (simp add: host_inv_def)
qed

text \<open>
  In the concrete session the link to \<^verbatim>\<open>other.org\<close> is in the record of the start page and
  not in the queue.
\<close>

theorem frontier_stays_on_seed_host_witness:
  "crawl node_url (Some ''http://example.com'') None None events_1 = Some state_1 \<and>
   hostname node_url ''http://example.com'' = Some ''example.com'' \<and>
   list_all (\<lambda>u. hostname node_url u = Some ''example.com'') (urlQueue (obj state_1)) \<and>
   ''http://other.org/x'' \<in> set (the (crawledData (obj state_1) ''http://example.com'')) \<and>
   ''http://other.org/x'' \<notin> set (urlQueue (obj state_1))"
proof -
  note t = frontier_stays_on_seed_host[OF state_1_run]
  have d: "domainName (obj state_1) = ''example.com''" by (simp add: state_1_def)
  from t d have h: "hostname node_url ''http://example.com'' = Some ''example.com''" by simp
  from t h have "\<forall>u\<in>set (urlQueue (obj state_1)). hostname node_url u = Some ''example.com''"
    by auto
  then have l: "list_all (\<lambda>u. hostname node_url u = Some ''example.com'') (urlQueue (obj state_1))"
    by (simp add: list_all_iff)
  have x: "''http://other.org/x'' \<in> set (the (crawledData (obj state_1) ''http://example.com''))"
    "''http://other.org/x'' \<notin> set (urlQueue (obj state_1))"
    by (simp_all add: state_1_def)
  show ?thesis using state_1_run h l x by blast
qed

subsection \<open>The records\<close>

text \<open>
  C7. In every state of a session, the list recorded in \<open>crawledData\<close> for a URL \<open>u\<close> has no
  duplicates, and it is the list of first occurrences of the links extracted from a page
  that was fetched for \<open>u\<close> in this session.
\<close>

theorem crawledData_unique_in_first_seen_order:
  assumes "crawl U seed mc mr evs = Some s" and "crawledData (obj s) u = Some ls"
  shows "distinct ls \<and>
         (\<exists>page h. Answer u (Resolved page h) \<in> set evs \<and>
            ls = first_occurrences (extractLinks U page u))"
proof -
  obtain c where c: "constructor U seed mc mr = Inr c" "run U evs (start c) = Some s"
    using assms(1) crawl_Some by blast
  have "crawledData (obj (start c)) u = None"
    using constructor_Inr[OF c(1)] by (auto simp: start_def)
  with crawled_run[OF c(2) assms(2)]
  obtain page h where p: "Answer u (Resolved page h) \<in> set evs" "ls = new_Set (extractLinks U page u)"
    by auto
  have "distinct ls" using p(2) by (simp add: distinct_new_Set)
  moreover have "ls = first_occurrences (extractLinks U page u)"
    using p(2) by (simp add: new_Set_first_occurrences)
  ultimately show ?thesis using p(1) by blast
qed

text \<open>The record of the start page in the concrete session: \<^verbatim>\<open>/a\<close> occurs twice on the page.\<close>

theorem crawledData_unique_in_first_seen_order_witness:
  "crawl node_url (Some ''http://example.com'') None None events_1 = Some state_1 \<and>
   crawledData (obj state_1) ''http://example.com'' =
     Some [''http://example.com/a'', ''http://other.org/x'', ''http://example.com/''] \<and>
   distinct [''http://example.com/a'', ''http://other.org/x'', ''http://example.com/''] \<and>
   (\<exists>page h. Answer ''http://example.com'' (Resolved page h) \<in> set events_1 \<and>
      [''http://example.com/a'', ''http://other.org/x'', ''http://example.com/''] =
        first_occurrences (extractLinks node_url page ''http://example.com''))"
proof -
  have r: "crawledData (obj state_1) ''http://example.com'' =
     Some [''http://example.com/a'', ''http://other.org/x'', ''http://example.com/'']"
    by (simp add: state_1_def)
  show ?thesis
    using crawledData_unique_in_first_seen_order[OF state_1_run r] state_1_run r by blast
qed

text \<open>
  C10. In every state of a session, every key of \<open>crawledData\<close> and every key of
  \<open>failedUrls\<close> is in the visited set.
\<close>

theorem records_only_for_visited_urls:
  assumes "crawl U seed mc mr evs = Some s"
  shows "dom (crawledData (obj s)) \<union> dom (failedUrls (obj s)) \<subseteq> visitedUrls (obj s)"
  using records_inv_crawl[OF assms] by (simp add: records_inv_def)

text \<open>The concrete session has a record for the start page.\<close>

theorem records_only_for_visited_urls_witness:
  "crawl node_url (Some ''http://example.com'') None None events_1 = Some state_1 \<and>
   dom (crawledData (obj state_1)) = {''http://example.com''} \<and>
   dom (crawledData (obj state_1)) \<union> dom (failedUrls (obj state_1)) \<subseteq> visitedUrls (obj state_1)"
proof -
  have d: "dom (crawledData (obj state_1)) = {''http://example.com''}"
    by (simp add: state_1_def)
  show ?thesis using records_only_for_visited_urls[OF state_1_run] state_1_run d by blast
qed

subsection \<open>Construction\<close>

text \<open>
  C9. Without a start URL, or with an empty one, the constructor throws the error
  \<^verbatim>\<open>Start URL is required.\<close>; with a start URL that \<^verbatim>\<open>new URL\<close> rejects it throws the error
  \<^verbatim>\<open>Invalid URL provided.\<close>, a different one. In each case the result is the exception
  alone: no crawler is made, and no session starts from it.
\<close>

theorem constructor_rejects_bad_seed:
  "constructor U None mc mr = Inl (Error ''Start URL is required.'') \<and>
   constructor U (Some []) mc mr = Inl (Error ''Start URL is required.'') \<and>
   (url \<noteq> [] \<and> hostname U url = None \<longrightarrow>
      constructor U (Some url) mc mr = Inl (Error ''Invalid URL provided.'') \<and>
      crawl U (Some url) mc mr evs = None) \<and>
   crawl U None mc mr evs = None \<and> crawl U (Some []) mc mr evs = None \<and>
   Error ''Start URL is required.'' \<noteq> Error ''Invalid URL provided.''"
  by (simp add: constructor_def crawl_def)

text \<open>The start URL of the repository's test, \<^verbatim>\<open>invalid-url\<close>.\<close>

theorem constructor_rejects_bad_seed_witness:
  "hostname node_url ''invalid-url'' = None \<and>
   constructor node_url None None None = Inl (Error ''Start URL is required.'') \<and>
   constructor node_url (Some []) None None = Inl (Error ''Start URL is required.'') \<and>
   constructor node_url (Some ''invalid-url'') None None = Inl (Error ''Invalid URL provided.'') \<and>
   crawl node_url (Some ''invalid-url'') None None [Pass] = None"
proof -
  have h: "hostname node_url ''invalid-url'' = None" by (simp add: node_defs)
  show ?thesis
    using h constructor_rejects_bad_seed[of node_url None None "''invalid-url''" "[Pass]"]
    by simp
qed

end
